theory Spec2Isabelle
  imports Main
begin

section \<open>Python values and text helpers\<close>

text \<open>
  Attribute values of \<^verbatim>\<open>mastertickets/graphviz.py\<close>.  The module is Python 3 code
  (it uses f-strings), so a built-in \<^verbatim>\<open>dict\<close> has no \<^verbatim>\<open>iteritems\<close> attribute:
  \<open>PDict\<close> is the built-in dict, \<open>PItems\<close> is a dictionary-like object that does expose
  \<^verbatim>\<open>iteritems()\<close>, that is an instance of a subclass of \<^verbatim>\<open>dict\<close> that adds the
  method; it carries the text \<^verbatim>\<open>repr\<close> gives for it (the class may define its own) and
  its items, which are the pairs \<^verbatim>\<open>iteritems()\<close> yields.  Strings are sequences of code
  points below 256; dict keys are strings, in insertion order.
\<close>

datatype pyval =
    PStr string
  | PInt int
  | PList "pyval list"
  | PTuple "pyval list"
  | PDict "(string \<times> pyval) list"
  | PItems string "(string \<times> pyval) list"

type_synonym items = "(string \<times> pyval) list"

text \<open>\<^verbatim>\<open>sep.join(xs)\<close>\<close>

fun join :: "string \<Rightarrow> string list \<Rightarrow> string" where
  "join sep [] = []"
| "join sep [x] = x"
| "join sep (x # y # ys) = x @ sep @ join sep (y # ys)"

text \<open>Decimal digits of a natural number, as \<^verbatim>\<open>repr\<close> prints an \<^verbatim>\<open>int\<close>.\<close>

fun dec :: "nat \<Rightarrow> string" where
  "dec n = (if n < 10 then [''0123456789'' ! n]
            else dec (n div 10) @ [''0123456789'' ! (n mod 10)])"

declare dec.simps [simp del]

definition hexdigit :: "nat \<Rightarrow> char" where
  "hexdigit d = ''0123456789abcdef'' ! d"

text \<open>\<^verbatim>\<open>str.isprintable\<close> on one code point below 256: the controls, DEL, the
  no-break space and the soft hyphen are not printable.\<close>

definition printable :: "char \<Rightarrow> bool" where
  "printable c = (let n = (of_char c :: nat) in (32 \<le> n \<and> n < 127) \<or> (161 \<le> n \<and> n \<noteq> 173))"

definition repr_char :: "char \<Rightarrow> char \<Rightarrow> string" where
  "repr_char q c =
     (if c = q \<or> c = CHR 0x5C then [CHR 0x5C, c]
      else if c = CHR 0x09 then [CHR 0x5C, CHR ''t'']
      else if c = CHR 0x0A then [CHR 0x5C, CHR ''n'']
      else if c = CHR 0x0D then [CHR 0x5C, CHR ''r'']
      else if printable c then [c]
      else [CHR 0x5C, CHR ''x'', hexdigit (of_char c div 16), hexdigit (of_char c mod 16)])"

text \<open>\<^verbatim>\<open>repr\<close> of a \<^verbatim>\<open>str\<close>: single quotes, unless the text has a single quote and
  no double quote.\<close>

definition str_repr :: "string \<Rightarrow> string" where
  "str_repr s =
     (let q = (if CHR 0x27 \<in> set s \<and> CHR 0x22 \<notin> set s then CHR 0x22 else CHR 0x27)
      in q # concat (map (repr_char q) s) @ [q])"

fun py_repr :: "pyval \<Rightarrow> string" where
  "py_repr (PStr s) = str_repr s"
| "py_repr (PInt i) = (if i < 0 then ''-'' @ dec (nat (- i)) else dec (nat i))"
| "py_repr (PList vs) = ''['' @ join '', '' (map py_repr vs) @ '']''"
| "py_repr (PTuple vs) =
     (case vs of
        [v] \<Rightarrow> ''('' @ py_repr v @ '',)''
      | _ \<Rightarrow> ''('' @ join '', '' (map py_repr vs) @ '')'')"
| "py_repr (PDict kvs) =
     ''{'' @ join '', '' (map (\<lambda>kv. str_repr (fst kv) @ '': '' @ py_repr (snd kv)) kvs) @ ''}''"
| "py_repr (PItems r kvs) = r"

text \<open>\<^verbatim>\<open>str(value)\<close>, which an f-string field applies: a string is itself, every other
  value of this model prints as its \<^verbatim>\<open>repr\<close>.\<close>

definition py_str :: "pyval \<Rightarrow> string" where
  "py_str v = (case v of PStr s \<Rightarrow> s | _ \<Rightarrow> py_repr v)"

text \<open>
  \<^verbatim>\<open>a == b\<close>.  Lists and tuples compare element by element.  A dict and an instance of
  a dict subclass both compare with \<^verbatim>\<open>dict.__eq__\<close>, with each other too: as sets of
  key/value pairs, whatever the insertion order and whatever \<^verbatim>\<open>repr\<close> prints.
\<close>

fun py_eq :: "pyval \<Rightarrow> pyval \<Rightarrow> bool" where
  "py_eq (PStr a) (PStr b) = (a = b)"
| "py_eq (PInt a) (PInt b) = (a = b)"
| "py_eq (PList a) (PList b) = list_all2 py_eq a b"
| "py_eq (PTuple a) (PTuple b) = list_all2 py_eq a b"
| "py_eq (PDict a) (PDict b) =
     (length a = length b \<and>
      list_all (\<lambda>kv. case map_of b (fst kv) of None \<Rightarrow> False | Some w \<Rightarrow> py_eq (snd kv) w) a)"
| "py_eq (PDict a) (PItems s b) =
     (length a = length b \<and>
      list_all (\<lambda>kv. case map_of b (fst kv) of None \<Rightarrow> False | Some w \<Rightarrow> py_eq (snd kv) w) a)"
| "py_eq (PItems r a) (PDict b) =
     (length a = length b \<and>
      list_all (\<lambda>kv. case map_of b (fst kv) of None \<Rightarrow> False | Some w \<Rightarrow> py_eq (snd kv) w) a)"
| "py_eq (PItems r a) (PItems s b) =
     (length a = length b \<and>
      list_all (\<lambda>kv. case map_of b (fst kv) of None \<Rightarrow> False | Some w \<Rightarrow> py_eq (snd kv) w) a)"
| "py_eq _ _ = False"

text \<open>\<^verbatim>\<open>dict.__eq__\<close> on the contents of two dicts.\<close>

definition dict_eq :: "items \<Rightarrow> items \<Rightarrow> bool" where
  "dict_eq a b = py_eq (PDict a) (PDict b)"

section \<open>The attribute formatter\<close>

text \<open>
  \<^verbatim>\<open>_handle_attribute_value\<close>: the branches in the order of the source, which are
  \<^verbatim>\<open>isinstance(value, str)\<close>, \<^verbatim>\<open>hasattr(value, 'iteritems')\<close>,
  \<^verbatim>\<open>isinstance(value, (list, tuple))\<close> and the \<^verbatim>\<open>repr\<close> fallback.
\<close>

fun handle_attribute_value :: "pyval \<Rightarrow> string" where
  "handle_attribute_value (PStr s) = s"
| "handle_attribute_value (PItems r kvs) =
     join '', '' (map (\<lambda>kv. fst kv @ ''='' @ handle_attribute_value (snd kv)) kvs)"
| "handle_attribute_value (PList vs) = join '', '' (map handle_attribute_value vs)"
| "handle_attribute_value (PTuple vs) = join '', '' (map handle_attribute_value vs)"
| "handle_attribute_value v = py_repr v"

section \<open>Objects with identity: the heap\<close>

text \<open>
  \<^verbatim>\<open>Node\<close> and \<^verbatim>\<open>Edge\<close> are mutable objects that are shared and hashed by
  \<^verbatim>\<open>id\<close>, so they live in a heap and are named by reference.  A reference is the
  position of the object in the heap, in allocation order; allocation appends.  Both
  classes subclass \<^verbatim>\<open>dict\<close>: the dict contents are the attributes (\<open>node_items\<close>,
  \<open>edge_items\<close>), next to the instance fields \<^verbatim>\<open>name\<close>, \<^verbatim>\<open>edges\<close>, \<^verbatim>\<open>source\<close>
  and \<^verbatim>\<open>dest\<close>.  \<open>OOther\<close> is an object that is neither a Node nor an Edge (it has
  no \<^verbatim>\<open>name\<close> and no \<^verbatim>\<open>edges\<close> attribute).
\<close>

type_synonym ref = nat

record node =
  node_name :: string
  node_edges :: "ref list"
  node_items :: items

record edge =
  edge_source :: ref
  edge_dest :: ref
  edge_items :: items

datatype obj = ONode node | OEdge edge | OOther

type_synonym heap = "obj list"

datatype error = KeyError | ValueError | AttributeError

definition lookup :: "heap \<Rightarrow> ref \<Rightarrow> obj option" where
  "lookup h r = (if r < length h then Some (h ! r) else None)"

text \<open>\<^verbatim>\<open>isinstance(x, Node)\<close> and \<^verbatim>\<open>isinstance(x, Edge)\<close>\<close>

definition is_Node :: "heap \<Rightarrow> ref \<Rightarrow> bool" where
  "is_Node h r = (case lookup h r of Some (ONode n) \<Rightarrow> True | _ \<Rightarrow> False)"

definition is_Edge :: "heap \<Rightarrow> ref \<Rightarrow> bool" where
  "is_Edge h r = (case lookup h r of Some (OEdge e) \<Rightarrow> True | _ \<Rightarrow> False)"

text \<open>\<^verbatim>\<open>Node.__init__\<close> and \<^verbatim>\<open>Edge.__init__\<close>: the new object and its reference.\<close>

definition Node :: "heap \<Rightarrow> string \<Rightarrow> items \<Rightarrow> heap \<times> ref" where
  "Node h name kwargs =
     (h @ [ONode \<lparr>node_name = name, node_edges = [], node_items = kwargs\<rparr>], length h)"

definition Edge :: "heap \<Rightarrow> ref \<Rightarrow> ref \<Rightarrow> items \<Rightarrow> heap \<times> ref" where
  "Edge h source dest kwargs =
     (h @ [OEdge \<lparr>edge_source = source, edge_dest = dest, edge_items = kwargs\<rparr>], length h)"

text \<open>\<^verbatim>\<open>x.edges.append(e)\<close>: only a Node has \<^verbatim>\<open>edges\<close>.\<close>

definition edges_append :: "heap \<Rightarrow> ref \<Rightarrow> ref \<Rightarrow> error + heap" where
  "edges_append h x e =
     (case lookup h x of
        Some (ONode n) \<Rightarrow> Inr (h[x := ONode (n\<lparr>node_edges := node_edges n @ [e]\<rparr>)])
      | _ \<Rightarrow> Inl AttributeError)"

text \<open>
  \<^verbatim>\<open>Node.__gt__\<close> (\<^verbatim>\<open>self > other\<close>) and \<^verbatim>\<open>Node.__lt__\<close>.  An exception leaves the
  heap as the statements before it made it: \<open>Inl (e, h)\<close>.
\<close>

definition gt :: "heap \<Rightarrow> ref \<Rightarrow> ref \<Rightarrow> (error \<times> heap) + (heap \<times> ref)" where
  "gt h self other =
     (let (h1, edge) = Edge h self other [] in
      case edges_append h1 self edge of
        Inl e \<Rightarrow> Inl (e, h1)
      | Inr h2 \<Rightarrow>
          (case edges_append h2 other edge of
             Inl e \<Rightarrow> Inl (e, h2)
           | Inr h3 \<Rightarrow> Inr (h3, edge)))"

definition lt :: "heap \<Rightarrow> ref \<Rightarrow> ref \<Rightarrow> (error \<times> heap) + (heap \<times> ref)" where
  "lt h self other =
     (let (h1, edge) = Edge h other self [] in
      case edges_append h1 self edge of
        Inl e \<Rightarrow> Inl (e, h1)
      | Inr h2 \<Rightarrow>
          (case edges_append h2 other edge of
             Inl e \<Rightarrow> Inl (e, h2)
           | Inr h3 \<Rightarrow> Inr (h3, edge)))"

section \<open>The graph\<close>

record graph =
  g_name :: string
  g_log :: bool
  g_nodes :: "ref list"
  g_node_map :: "string \<rightharpoonup> ref"
  g_attributes :: items
  g_edges :: "ref list"

text \<open>\<^verbatim>\<open>Graph.__init__\<close>; \<open>g_log\<close> says whether a logger was given (\<^verbatim>\<open>log\<close> is not
  \<^verbatim>\<open>None\<close>).\<close>

definition Graph :: "string \<Rightarrow> bool \<Rightarrow> graph" where
  "Graph name log =
     \<lparr>g_name = name, g_log = log, g_nodes = [], g_node_map = Map.empty,
      g_attributes = [], g_edges = []\<rparr>"

definition add :: "heap \<Rightarrow> graph \<Rightarrow> ref \<Rightarrow> graph" where
  "add h g obj =
     (case lookup h obj of
        Some (ONode n) \<Rightarrow>
          g\<lparr>g_nodes := g_nodes g @ [obj], g_node_map := (g_node_map g)(node_name n \<mapsto> obj)\<rparr>
      | Some (OEdge e) \<Rightarrow> g\<lparr>g_edges := g_edges g @ [obj]\<rparr>
      | _ \<Rightarrow> g)"

text \<open>\<^verbatim>\<open>Graph.__getitem__\<close>: the heap and the graph after the call, and the Node returned.\<close>

definition getitem :: "heap \<Rightarrow> graph \<Rightarrow> string \<Rightarrow> heap \<times> graph \<times> ref" where
  "getitem h g key =
     (case g_node_map g key of
        None \<Rightarrow>
          (let (h', new_node) = Node h key [] in
           (h', g\<lparr>g_node_map := (g_node_map g)(key \<mapsto> new_node),
                  g_nodes := g_nodes g @ [new_node]\<rparr>, new_node))
      | Some r \<Rightarrow> (h, g, r))"

text \<open>
  \<^verbatim>\<open>a == b\<close> on two heap objects.  Node and Edge inherit \<^verbatim>\<open>dict.__eq__\<close> (the classes
  override \<^verbatim>\<open>__hash__\<close> only), which compares the dict contents and ignores
  \<^verbatim>\<open>name\<close>, \<^verbatim>\<open>edges\<close>, \<^verbatim>\<open>source\<close> and \<^verbatim>\<open>dest\<close>; any other object is equal to
  itself only.
\<close>

definition dict_of :: "obj \<Rightarrow> items option" where
  "dict_of x = (case x of ONode n \<Rightarrow> Some (node_items n) | OEdge e \<Rightarrow> Some (edge_items e)
                | OOther \<Rightarrow> None)"

definition obj_eq :: "heap \<Rightarrow> ref \<Rightarrow> ref \<Rightarrow> bool" where
  "obj_eq h a b =
     (a = b \<or>
      (case (Option.bind (lookup h a) dict_of, Option.bind (lookup h b) dict_of) of
         (Some d, Some d') \<Rightarrow> dict_eq d d'
       | _ \<Rightarrow> False))"

text \<open>\<^verbatim>\<open>list.remove(x)\<close>: drops the first element equal to \<^verbatim>\<open>x\<close>; \<open>None\<close> is the
  \<^verbatim>\<open>ValueError\<close> raised when there is none.\<close>

fun list_remove :: "heap \<Rightarrow> ref list \<Rightarrow> ref \<Rightarrow> ref list option" where
  "list_remove h [] x = None"
| "list_remove h (y # ys) x =
     (if obj_eq h y x then Some ys else map_option ((#) y) (list_remove h ys x))"

text \<open>\<^verbatim>\<open>Graph.__delitem__\<close>: \<^verbatim>\<open>pop\<close> raises \<^verbatim>\<open>KeyError\<close> before anything changes,
  \<^verbatim>\<open>remove\<close> raises \<^verbatim>\<open>ValueError\<close> after the registry entry is gone.\<close>

definition delitem :: "heap \<Rightarrow> graph \<Rightarrow> string \<Rightarrow> (error \<times> graph) + graph" where
  "delitem h g key =
     (case g_node_map g key of
        None \<Rightarrow> Inl (KeyError, g)
      | Some node \<Rightarrow>
          (let g1 = g\<lparr>g_node_map := (g_node_map g)(key := None)\<rparr> in
           case list_remove h (g_nodes g1) node of
             None \<Rightarrow> Inl (ValueError, g1)
           | Some ns \<Rightarrow> Inr (g1\<lparr>g_nodes := ns\<rparr>)))"

section \<open>Serialisation\<close>

text \<open>
  The local state of \<^verbatim>\<open>Graph.__str__\<close>: the set \<^verbatim>\<open>memo\<close> and the lists
  \<^verbatim>\<open>nodes\<close> and \<^verbatim>\<open>edges\<close>, which the nested function \<^verbatim>\<open>process\<close> updates.
  Node and Edge hash by \<^verbatim>\<open>id\<close>, so membership in \<^verbatim>\<open>memo\<close> is membership of the
  reference.
\<close>

record walk =
  memo :: "ref set"
  nodes :: "ref list"
  edges :: "ref list"

function process :: "heap \<Rightarrow> walk \<Rightarrow> ref list \<Rightarrow> walk" where
  "process h w [] = w"
| "process h w (item # lst) =
     (if item \<in> memo w then process h w lst
      else
        (let w1 = w\<lparr>memo := insert item (memo w)\<rparr> in
         case lookup h item of
           Some (ONode n) \<Rightarrow>
             process h (process h (w1\<lparr>nodes := nodes w1 @ [item]\<rparr>) (node_edges n)) lst
         | Some (OEdge e) \<Rightarrow>
             (let w2 = w1\<lparr>edges := edges w1 @ [item]\<rparr>;
                  w3 = (if is_Node h (edge_source e) then process h w2 [edge_source e] else w2);
                  w4 = (if is_Node h (edge_dest e) then process h w3 [edge_dest e] else w3)
              in process h w4 lst)
         | _ \<Rightarrow> process h w1 lst))"
  by pat_completeness auto


lemma process_memo_mono:
  "process_dom (h, w, lst) \<Longrightarrow> memo w \<subseteq> memo (process h w lst)"
proof (induction h w lst rule: process.pinduct)
  case (1 h w)
  then show ?case by (simp add: process.psimps)
next
  case (2 h w item lst)
  note dom = "2.hyps"
  let ?w1 = "w\<lparr>memo := insert item (memo w)\<rparr>"
  show ?case
  proof (cases "item \<in> memo w")
    case True
    with "2.IH"(1) dom show ?thesis by (simp add: process.psimps)
  next
    case False
    show ?thesis
    proof (cases "lookup h item")
      case None
      from "2.IH"(2)[OF False refl None]
      have "memo ?w1 \<subseteq> memo (process h ?w1 lst)" .
      with dom False None show ?thesis by (auto simp add: process.psimps)
    next
      case (Some x)
      show ?thesis
      proof (cases x)
        case (ONode n)
        let ?w2 = "?w1\<lparr>nodes := nodes ?w1 @ [item]\<rparr>"
        have a: "memo ?w2 \<subseteq> memo (process h ?w2 (node_edges n))"
          using "2.IH"(3)[OF False refl Some ONode] .
        have b: "memo (process h ?w2 (node_edges n))
                  \<subseteq> memo (process h (process h ?w2 (node_edges n)) lst)"
          using "2.IH"(4)[OF False refl Some ONode] .
        have "process h w (item # lst) = process h (process h ?w2 (node_edges n)) lst"
          using dom False Some ONode by (simp add: process.psimps)
        with a b show ?thesis by auto
      next
        case (OEdge e)
        let ?w2 = "?w1\<lparr>edges := edges ?w1 @ [item]\<rparr>"
        let ?w3 = "if is_Node h (edge_source e) then process h ?w2 [edge_source e] else ?w2"
        let ?w4 = "if is_Node h (edge_dest e) then process h ?w3 [edge_dest e] else ?w3"
        have a: "memo ?w2 \<subseteq> memo ?w3"
          using "2.IH"(5)[OF False refl Some OEdge refl] by auto
        have b: "memo ?w3 \<subseteq> memo ?w4"
          using "2.IH"(6)[OF False refl Some OEdge refl refl] by auto
        have c: "memo ?w4 \<subseteq> memo (process h ?w4 lst)"
          using "2.IH"(7)[OF False refl Some OEdge refl refl refl] .
        have z: "memo w \<subseteq> memo ?w2" by auto
        have eq: "process h w (item # lst) = process h ?w4 lst"
          using dom False Some OEdge by (simp add: process.psimps Let_def)
        show ?thesis
          unfolding eq by (rule order_trans[OF z order_trans[OF a order_trans[OF b c]]])
      next
        case OOther
        from "2.IH"(8)[OF False refl Some OOther]
        have "memo ?w1 \<subseteq> memo (process h ?w1 lst)" .
        with dom False Some OOther show ?thesis by (auto simp add: process.psimps)
      qed
    qed
  qed
qed

definition process_order :: "((heap \<times> walk \<times> ref list) \<times> (heap \<times> walk \<times> ref list)) set" where
  "process_order =
     inv_image (less_than <*lex*> less_than)
       (\<lambda>(h, w, lst). (card ({..<length h} - memo w), length lst))"

lemma wf_process_order: "wf process_order"
  unfolding process_order_def by (intro wf_inv_image wf_lex_prod wf_less_than)

lemma order_same:
  assumes "memo w \<subseteq> memo w'" "length lst' < length lst"
  shows "((h, w', lst'), (h, w, lst)) \<in> process_order"
proof -
  have "card ({..<length h} - memo w') \<le> card ({..<length h} - memo w)"
    using assms(1) by (intro card_mono) auto
  with assms(2) show ?thesis by (auto simp add: process_order_def)
qed

lemma order_enter:
  assumes "lookup h item = Some x" "item \<notin> memo w" "insert item (memo w) \<subseteq> memo w'"
  shows "((h, w', lst'), (h, w, lst)) \<in> process_order"
proof -
  have lt: "item < length h"
    using assms(1) by (simp add: lookup_def split: if_splits)
  have "{..<length h} - memo w' \<subset> {..<length h} - memo w"
    using assms(2,3) lt by auto
  then have "card ({..<length h} - memo w') < card ({..<length h} - memo w)"
    by (intro psubset_card_mono) auto
  then show ?thesis by (simp add: process_order_def)
qed

lemma process_total: "All process_dom"
proof (relation process_order)
  show "wf process_order" by (rule wf_process_order)
next
  fix h :: heap and w :: walk and item :: ref and lst :: "ref list"
  show "((h, w, lst), (h, w, item # lst)) \<in> process_order"
    by (rule order_same) simp_all
next
  fix h :: heap and w :: walk and item :: ref and lst :: "ref list" and x :: walk
  assume "x = w\<lparr>memo := insert item (memo w)\<rparr>"
  then show "((h, x, lst), (h, w, item # lst)) \<in> process_order"
    by (intro order_same) auto
next
  fix h :: heap and w :: walk and item :: ref and lst :: "ref list" and x :: walk and x2 :: obj and n :: node
  assume "item \<notin> memo w" "x = w\<lparr>memo := insert item (memo w)\<rparr>"
    "lookup h item = Some x2"
  then show "((h, x\<lparr>nodes := nodes x @ [item]\<rparr>, node_edges n), (h, w, item # lst))
              \<in> process_order"
    by (intro order_enter) auto
next
  fix h :: heap and w :: walk and item :: ref and lst :: "ref list" and x :: walk and x2 :: obj and n :: node
  assume "x = w\<lparr>memo := insert item (memo w)\<rparr>"
    "process_dom (h, x\<lparr>nodes := nodes x @ [item]\<rparr>, node_edges n)"
  then show "((h, process h (x\<lparr>nodes := nodes x @ [item]\<rparr>) (node_edges n), lst),
               (h, w, item # lst)) \<in> process_order"
    using process_memo_mono by (intro order_same) force+
next
  fix h :: heap and w :: walk and item :: ref and lst :: "ref list" and x :: walk and x2 :: obj and e :: edge and xa :: walk
  assume "item \<notin> memo w" "x = w\<lparr>memo := insert item (memo w)\<rparr>"
    "lookup h item = Some x2" "xa = x\<lparr>edges := edges x @ [item]\<rparr>"
  then show "((h, xa, [edge_source e]), (h, w, item # lst)) \<in> process_order"
    by (intro order_enter) auto
next
  fix h :: heap and w :: walk and item :: ref and lst :: "ref list" and x :: walk and x2 :: obj and e :: edge and xa :: walk and xb :: walk
  assume a: "item \<notin> memo w" "x = w\<lparr>memo := insert item (memo w)\<rparr>"
    "lookup h item = Some x2" "xa = x\<lparr>edges := edges x @ [item]\<rparr>"
    "xb = (if is_Node h (edge_source e) then process h xa [edge_source e] else xa)"
    "is_Node h (edge_source e) \<Longrightarrow> process_dom (h, xa, [edge_source e])"
  have "memo xa \<subseteq> memo xb"
    using a(5,6) process_memo_mono by (cases "is_Node h (edge_source e)") auto
  with a(1-4) show "((h, xb, [edge_dest e]), (h, w, item # lst)) \<in> process_order"
    by (intro order_enter) auto
next
  fix h :: heap and w :: walk and item :: ref and lst :: "ref list" and x :: walk and x2 :: obj and e :: edge and xa :: walk and xb :: walk and xc :: walk
  assume a: "x = w\<lparr>memo := insert item (memo w)\<rparr>"
    "xa = x\<lparr>edges := edges x @ [item]\<rparr>"
    "xb = (if is_Node h (edge_source e) then process h xa [edge_source e] else xa)"
    "xc = (if is_Node h (edge_dest e) then process h xb [edge_dest e] else xb)"
    "is_Node h (edge_dest e) \<Longrightarrow> process_dom (h, xb, [edge_dest e])"
    "is_Node h (edge_source e) \<Longrightarrow> process_dom (h, xa, [edge_source e])"
  have 1: "memo xa \<subseteq> memo xb"
    using a(3,6) process_memo_mono by (cases "is_Node h (edge_source e)") auto
  have 2: "memo xb \<subseteq> memo xc"
    using a(4,5) process_memo_mono by (cases "is_Node h (edge_dest e)") auto
  have "memo w \<subseteq> memo xa" using a(1,2) by auto
  with 1 2 have "memo w \<subseteq> memo xc" by blast
  then show "((h, xc, lst), (h, w, item # lst)) \<in> process_order"
    by (intro order_same) auto
next
  fix h :: heap and w :: walk and item :: ref and lst :: "ref list" and x :: walk
  assume "x = w\<lparr>memo := insert item (memo w)\<rparr>"
  then show "((h, x, lst), (h, w, item # lst)) \<in> process_order"
    by (intro order_same) auto
qed

termination process
  using process_total by blast

text \<open>
  The bracketed attribute text of a vertex or arc line:
  \<^verbatim>\<open>', '.join(f'{k}="{_handle_attribute_value(v)}"' for k, v in d.items())\<close>.
\<close>

definition attrs_text :: "items \<Rightarrow> string" where
  \<open>attrs_text d =
     join '', '' (map (\<lambda>kv. fst kv @ ''="'' @ handle_attribute_value (snd kv) @ ''"'') d)\<close>

text \<open>One line per graph attribute: \<^verbatim>\<open>f'\t{att}="{value}";'\<close>.\<close>

definition attribute_line :: "string \<times> pyval \<Rightarrow> string" where
  \<open>attribute_line kv = CHR 0x09 # fst kv @ ''="'' @ py_str (snd kv) @ ''";''\<close>

text \<open>One line per collected Node: \<^verbatim>\<open>f'\t"{node.name}" [{node_attrs}];'\<close>.\<close>

definition node_line :: "heap \<Rightarrow> ref \<Rightarrow> error + string" where
  \<open>node_line h r =
     (case lookup h r of
        Some (ONode n) \<Rightarrow>
          Inr (CHR 0x09 # ''"'' @ node_name n @ ''" ['' @ attrs_text (node_items n) @ ''];'')
      | _ \<Rightarrow> Inl AttributeError)\<close>

text \<open>
  One line per collected Edge; the keys \<^verbatim>\<open>'source'\<close> and \<^verbatim>\<open>'dest'\<close> are left out of
  the attribute text.  \<^verbatim>\<open>edge.source.name\<close> raises \<^verbatim>\<open>AttributeError\<close> when the
  endpoint is not a Node.
\<close>

definition edge_line :: "heap \<Rightarrow> ref \<Rightarrow> error + string" where
  \<open>edge_line h r =
     (case lookup h r of
        Some (OEdge e) \<Rightarrow>
          (let edge_attrs =
                 attrs_text (filter (\<lambda>kv. fst kv \<notin> {''source'', ''dest''}) (edge_items e))
           in case lookup h (edge_source e) of
                Some (ONode s) \<Rightarrow>
                  (case lookup h (edge_dest e) of
                     Some (ONode d) \<Rightarrow>
                       Inr (CHR 0x09 # ''"'' @ node_name s @ ''" -> "'' @ node_name d @ ''" [''
                            @ edge_attrs @ ''];'')
                   | _ \<Rightarrow> Inl AttributeError)
              | _ \<Rightarrow> Inl AttributeError)
      | _ \<Rightarrow> Inl AttributeError)\<close>

text \<open>A \<^verbatim>\<open>for\<close> loop that appends one line per element and stops at the first
  exception.\<close>

fun collect :: "('a \<Rightarrow> error + 'b) \<Rightarrow> 'a list \<Rightarrow> error + 'b list" where
  "collect f [] = Inr []"
| "collect f (x # xs) =
     (case f x of
        Inl e \<Rightarrow> Inl e
      | Inr y \<Rightarrow> (case collect f xs of Inl e \<Rightarrow> Inl e | Inr ys \<Rightarrow> Inr (y # ys)))"

text \<open>The traversal of \<^verbatim>\<open>Graph.__str__\<close>: \<^verbatim>\<open>process(self.nodes)\<close>, then
  \<^verbatim>\<open>process(self.edges)\<close>, from the empty state.\<close>

definition Graph_walk :: "heap \<Rightarrow> graph \<Rightarrow> walk" where
  "Graph_walk h g =
     process h (process h \<lparr>memo = {}, nodes = [], edges = []\<rparr> (g_nodes g)) (g_edges g)"

text \<open>The list \<^verbatim>\<open>lines\<close> of \<^verbatim>\<open>Graph.__str__\<close>, and the text it returns.\<close>

definition Graph_lines :: "heap \<Rightarrow> graph \<Rightarrow> error + string list" where
  \<open>Graph_lines h g =
     (let w = Graph_walk h g in
      case collect (node_line h) (nodes w) of
        Inl e \<Rightarrow> Inl e
      | Inr node_lines \<Rightarrow>
          (case collect (edge_line h) (edges w) of
             Inl e \<Rightarrow> Inl e
           | Inr edge_lines \<Rightarrow>
               Inr ([''digraph "'' @ g_name g @ ''" {''] @ map attribute_line (g_attributes g)
                    @ node_lines @ edge_lines @ [''}''])))\<close>

definition Graph_str :: "heap \<Rightarrow> graph \<Rightarrow> error + string" where
  "Graph_str h g =
     (case Graph_lines h g of Inl e \<Rightarrow> Inl e | Inr lines \<Rightarrow> Inr (join [CHR 0x0A] lines))"

section \<open>Rendering\<close>

text \<open>
  Bytes are 8-bit characters.  \<^verbatim>\<open>text.encode('utf8')\<close> on code points below 256: one
  byte below 128, two bytes from 128 on.
\<close>

type_synonym bytes = "char list"

definition utf8 :: "string \<Rightarrow> bytes" where
  "utf8 s =
     concat (map (\<lambda>c. let n = (of_char c :: nat) in
                        if n < 128 then [c]
                        else [char_of (192 + n div 64), char_of (128 + n mod 64)]) s)"

text \<open>
  The child process is a parameter: from the command line and the bytes written to its
  standard input to \<^verbatim>\<open>(out, error, returncode)\<close>.  A warning is the arguments that
  \<^verbatim>\<open>self.log.warning\<close> receives: the command joined by spaces, the exit code and the
  diagnostic bytes.
\<close>

type_synonym popen = "string list \<Rightarrow> bytes \<Rightarrow> bytes \<times> bytes \<times> int"

record warning =
  w_cmd :: string
  w_rc :: int
  w_error :: bytes

text \<open>
  \<^verbatim>\<open>Graph.render\<close>: the bytes returned and the warnings logged, or the exception raised.
  The condition \<^verbatim>\<open>self.log and error or p.returncode\<close> groups as
  \<^verbatim>\<open>(self.log and error) or p.returncode\<close>; \<^verbatim>\<open>self.log.warning\<close> on a log that is
  \<^verbatim>\<open>None\<close> raises \<^verbatim>\<open>AttributeError\<close>.
\<close>

definition render :: "popen \<Rightarrow> heap \<Rightarrow> graph \<Rightarrow> string \<Rightarrow> string \<Rightarrow> error + (bytes \<times> warning list)" where
  "render run h g dot_path format =
     (let cmd = [dot_path, ''-T'' @ format] in
      case Graph_str h g of
        Inl e \<Rightarrow> Inl e
      | Inr dot_text \<Rightarrow>
          (let (out, error, returncode) = run cmd (utf8 dot_text) in
           if (g_log g \<and> error \<noteq> []) \<or> returncode \<noteq> 0
           then (if g_log g
                 then Inr (out, [\<lparr>w_cmd = join '' '' cmd, w_rc = returncode, w_error = error\<rparr>])
                 else Inl AttributeError)
           else Inr (out, [])))"

section \<open>The traversal as a depth-first search\<close>

text \<open>
  What \<^verbatim>\<open>process\<close> does on entering an unseen item (\<open>enter\<close>) and the items it then
  visits recursively (\<open>succs\<close>): the incident arcs of a vertex, and for an arc its source
  and its destination where they are Nodes.
\<close>

definition enter :: "heap \<Rightarrow> walk \<Rightarrow> ref \<Rightarrow> walk" where
  "enter h w item =
     (let w1 = w\<lparr>memo := insert item (memo w)\<rparr> in
      case lookup h item of
        Some (ONode n) \<Rightarrow> w1\<lparr>nodes := nodes w1 @ [item]\<rparr>
      | Some (OEdge e) \<Rightarrow> w1\<lparr>edges := edges w1 @ [item]\<rparr>
      | _ \<Rightarrow> w1)"

definition succs :: "heap \<Rightarrow> ref \<Rightarrow> ref list" where
  "succs h item =
     (case lookup h item of
        Some (ONode n) \<Rightarrow> node_edges n
      | Some (OEdge e) \<Rightarrow> filter (is_Node h) [edge_source e, edge_dest e]
      | _ \<Rightarrow> [])"

text \<open>
  The depth-first search in the words of the specification: the objects visited so far
  are kept as one list in first-discovery order; an unseen item is appended, then its
  successors are visited, then the rest of the list.
\<close>

function dfs :: "heap \<Rightarrow> ref list \<Rightarrow> ref list \<Rightarrow> ref list" where
  "dfs h vis [] = vis"
| "dfs h vis (x # xs) =
     (if x \<in> set vis then dfs h vis xs
      else dfs h (dfs h (vis @ [x]) (succs h x)) xs)"
  by pat_completeness auto

lemma dfs_visited_mono: "dfs_dom (h, vis, xs) \<Longrightarrow> set vis \<subseteq> set (dfs h vis xs)"
proof (induction h vis xs rule: dfs.pinduct)
  case (1 h vis)
  then show ?case by (simp add: dfs.psimps)
next
  case (2 h vis x xs)
  show ?case
  proof (cases "x \<in> set vis")
    case True
    with 2 show ?thesis by (simp add: dfs.psimps)
  next
    case False
    have "set (vis @ [x]) \<subseteq> set (dfs h (vis @ [x]) (succs h x))"
      using "2.IH"(2)[OF False] .
    moreover have "set (dfs h (vis @ [x]) (succs h x))
                     \<subseteq> set (dfs h (dfs h (vis @ [x]) (succs h x)) xs)"
      using "2.IH"(3)[OF False] .
    moreover have "dfs h vis (x # xs) = dfs h (dfs h (vis @ [x]) (succs h x)) xs"
      using "2.hyps" False by (simp add: dfs.psimps)
    ultimately show ?thesis by auto
  qed
qed

text \<open>The termination order of \<^verbatim>\<open>process\<close>, read on the visited list.\<close>

definition seen :: "ref list \<Rightarrow> walk" where
  "seen vis = \<lparr>memo = set vis, nodes = [], edges = []\<rparr>"

lemma dfs_total: "All dfs_dom"
proof (relation "inv_image process_order (\<lambda>(h, vis, xs). (h, seen vis, xs))")
  show "wf (inv_image process_order (\<lambda>(h, vis, xs). (h, seen vis, xs)))"
    by (intro wf_inv_image wf_process_order)
next
  fix h :: heap and vis :: "ref list" and x :: ref and xs :: "ref list"
  show "((h, vis, xs), (h, vis, x # xs))
          \<in> inv_image process_order (\<lambda>(h, vis, xs). (h, seen vis, xs))"
    by (simp, rule order_same) simp_all
next
  fix h :: heap and vis :: "ref list" and x :: ref and xs :: "ref list"
  assume x: "x \<notin> set vis"
  have "((h, seen (vis @ [x]), succs h x), (h, seen vis, x # xs)) \<in> process_order"
  proof (cases "lookup h x")
    case None
    then have "succs h x = []" by (simp add: succs_def)
    then show ?thesis by (intro order_same) (auto simp add: seen_def)
  next
    case (Some y)
    with x show ?thesis by (intro order_enter) (auto simp add: seen_def)
  qed
  then show "((h, vis @ [x], succs h x), (h, vis, x # xs))
          \<in> inv_image process_order (\<lambda>(h, vis, xs). (h, seen vis, xs))"
    by simp
next
  fix h :: heap and vis :: "ref list" and x :: ref and xs :: "ref list"
  assume "dfs_dom (h, vis @ [x], succs h x)"
  then have "set (vis @ [x]) \<subseteq> set (dfs h (vis @ [x]) (succs h x))"
    by (rule dfs_visited_mono)
  then have "((h, seen (dfs h (vis @ [x]) (succs h x)), xs), (h, seen vis, x # xs))
               \<in> process_order"
    by (intro order_same) (auto simp add: seen_def)
  then show "((h, dfs h (vis @ [x]) (succs h x), xs), (h, vis, x # xs))
          \<in> inv_image process_order (\<lambda>(h, vis, xs). (h, seen vis, xs))"
    by simp
qed

termination dfs
  using dfs_total by blast

declare dfs.simps(2) [simp del]

text \<open>The state of \<^verbatim>\<open>process\<close> that corresponds to a discovery order.\<close>

definition collected :: "heap \<Rightarrow> ref list \<Rightarrow> walk" where
  "collected h vis =
     \<lparr>memo = set vis, nodes = filter (is_Node h) vis, edges = filter (is_Edge h) vis\<rparr>"

text \<open>What can be reached from the top-level lists along vertex-to-arc and
  arc-to-endpoint links.\<close>

inductive_set reachable :: "heap \<Rightarrow> ref list \<Rightarrow> ref set" for h :: heap and roots :: "ref list" where
  root: "x \<in> set roots \<Longrightarrow> x \<in> reachable h roots"
| step: "x \<in> reachable h roots \<Longrightarrow> y \<in> set (succs h x) \<Longrightarrow> y \<in> reachable h roots"

text \<open>Every Edge of the heap has Nodes at both ends.\<close>

definition arcs_join_vertices :: "heap \<Rightarrow> bool" where
  "arcs_join_vertices h =
     list_all (\<lambda>x. case x of OEdge e \<Rightarrow> is_Node h (edge_source e) \<and> is_Node h (edge_dest e)
                     | _ \<Rightarrow> True) h"

section \<open>Sequences of graph operations\<close>

text \<open>
  The three operations of a caller on a graph: \<^verbatim>\<open>g.add(obj)\<close>, \<^verbatim>\<open>g[key]\<close> and
  \<^verbatim>\<open>del g[key]\<close>.  A failed \<^verbatim>\<open>del\<close> leaves the graph as the exception left it.
\<close>

datatype op = Add ref | Vertex string | Remove string

fun step :: "op \<Rightarrow> heap \<times> graph \<Rightarrow> heap \<times> graph" where
  "step (Add r) (h, g) = (h, add h g r)"
| "step (Vertex key) (h, g) = (let (h', g', r) = getitem h g key in (h', g'))"
| "step (Remove key) (h, g) =
     (case delitem h g key of Inl (e, g') \<Rightarrow> (h, g') | Inr g' \<Rightarrow> (h, g'))"

fun run :: "op list \<Rightarrow> heap \<times> graph \<Rightarrow> heap \<times> graph" where
  "run [] s = s"
| "run (x # xs) s = run xs (step x s)"





section \<open>Example graphs\<close>



text \<open>
  Vertices A and B with distinct labels and the arc \<^verbatim>\<open>A > B\<close>; both vertices are
  registered.  \<open>pruned_graph\<close> is the graph after \<^verbatim>\<open>del g['B']\<close>.
\<close>

definition dangling_heap :: heap where
  "dangling_heap =
     [ONode \<lparr>node_name = ''A'', node_edges = [2], node_items = [(''label'', PStr ''a'')]\<rparr>,
      ONode \<lparr>node_name = ''B'', node_edges = [2], node_items = [(''label'', PStr ''b'')]\<rparr>,
      OEdge \<lparr>edge_source = 0, edge_dest = 1, edge_items = []\<rparr>]"

definition dangling_graph :: graph where
  "dangling_graph = add dangling_heap (add dangling_heap (Graph ''g'' False) 0) 1"

definition pruned_graph :: graph where
  "pruned_graph =
     \<lparr>g_name = ''g'', g_log = False, g_nodes = [0], g_node_map = [''A'' \<mapsto> 0],
      g_attributes = [], g_edges = []\<rparr>"

section \<open>Facts about the traversal\<close>

declare process.simps(2) [simp del]

lemma memo_process: "memo w \<subseteq> memo (process h w lst)"
  using process_memo_mono process_total by blast

lemma process_append: "process h w (xs @ ys) = process h (process h w xs) ys"
proof (induction h w xs rule: process.induct)
  case (1 h w)
  show ?case by simp
next
  case (2 h w item lst)
  note unf = process.simps(2)[of h w item]
  show ?case
  proof (cases "item \<in> memo w")
    case True
    with "2.IH"(1) show ?thesis by (simp add: unf)
  next
    case False
    show ?thesis
    proof (cases "lookup h item")
      case None
      with False "2.IH"(2)[OF False refl None] show ?thesis by (simp add: unf)
    next
      case (Some x)
      show ?thesis
      proof (cases x)
        case (ONode n)
        with False Some "2.IH"(4)[OF False refl Some ONode] show ?thesis by (simp add: unf)
      next
        case (OEdge e)
        with False Some "2.IH"(7)[OF False refl Some OEdge refl refl refl] show ?thesis
          by (simp add: unf Let_def)
      next
        case OOther
        with False Some "2.IH"(8)[OF False refl Some OOther] show ?thesis by (simp add: unf)
      qed
    qed
  qed
qed

lemma process_Cons:
  "process h w (item # lst) =
     (if item \<in> memo w then process h w lst
      else process h (process h (enter h w item) (succs h item)) lst)"
proof (cases "lookup h item")
  case None
  then show ?thesis by (simp add: process.simps(2)[of h w item] enter_def succs_def)
next
  case (Some x)
  show ?thesis
  proof (cases x)
    case (ONode n)
    with Some show ?thesis by (simp add: process.simps(2)[of h w item] enter_def succs_def)
  next
    case (OEdge e)
    have "process h w2 [edge_source e, edge_dest e]
            = process h (process h w2 [edge_source e]) [edge_dest e]" for w2
      using process_append[of h w2 "[edge_source e]" "[edge_dest e]"] by simp
    with Some OEdge show ?thesis
      by (simp add: process.simps(2)[of h w item] enter_def succs_def Let_def)
  next
    case OOther
    with Some show ?thesis by (simp add: process.simps(2)[of h w item] enter_def succs_def)
  qed
qed

lemma memo_enter [simp]: "memo (enter h w item) = insert item (memo w)"
  by (simp add: enter_def Let_def split: option.splits obj.splits)

lemma set_dfs_mono: "set vis \<subseteq> set (dfs h vis xs)"
  using dfs_visited_mono dfs_total by blast

lemma enter_collected: "enter h (collected h vis) x = collected h (vis @ [x])"
  by (simp add: enter_def collected_def is_Node_def is_Edge_def Let_def
      split: option.splits obj.splits)

lemma process_collected: "process h (collected h vis) xs = collected h (dfs h vis xs)"
proof (induction h vis xs rule: dfs.induct)
  case (1 h vis)
  show ?case by simp
next
  case (2 h vis x xs)
  show ?case
  proof (cases "x \<in> set vis")
    case True
    with "2.IH"(1) show ?thesis
      by (simp add: process_Cons dfs.simps(2) collected_def)
  next
    case False
    have "process h (collected h vis) (x # xs)
            = process h (process h (collected h (vis @ [x])) (succs h x)) xs"
      using False by (simp add: process_Cons enter_collected) (simp add: collected_def)
    also have "\<dots> = collected h (dfs h (dfs h (vis @ [x]) (succs h x)) xs)"
      using "2.IH"(2,3)[OF False] by simp
    finally show ?thesis using False by (simp add: dfs.simps(2))
  qed
qed

lemma distinct_dfs: "distinct vis \<Longrightarrow> distinct (dfs h vis xs)"
  by (induction h vis xs rule: dfs.induct) (auto simp add: dfs.simps(2))

lemma set_dfs_roots: "set xs \<subseteq> set (dfs h vis xs)"
proof (induction h vis xs rule: dfs.induct)
  case (1 h vis)
  show ?case by simp
next
  case (2 h vis x xs)
  show ?case
  proof (cases "x \<in> set vis")
    case True
    with "2.IH"(1) set_dfs_mono[of vis h xs] show ?thesis
      by (auto simp add: dfs.simps(2))
  next
    case False
    have "x \<in> set (dfs h (vis @ [x]) (succs h x))"
      using set_dfs_mono[of "vis @ [x]" h "succs h x"] by auto
    then have "x \<in> set (dfs h (dfs h (vis @ [x]) (succs h x)) xs)"
      using set_dfs_mono[of "dfs h (vis @ [x]) (succs h x)" h xs] by auto
    with False "2.IH"(3) show ?thesis by (auto simp add: dfs.simps(2))
  qed
qed

lemma dfs_closed:
  "y \<in> set (dfs h vis xs) \<Longrightarrow> y \<notin> set vis \<Longrightarrow> set (succs h y) \<subseteq> set (dfs h vis xs)"
proof (induction h vis xs rule: dfs.induct)
  case (1 h vis)
  then show ?case by simp
next
  case (2 h vis x xs)
  show ?case
  proof (cases "x \<in> set vis")
    case True
    with 2 show ?thesis by (simp add: dfs.simps(2))
  next
    case False
    let ?d1 = "dfs h (vis @ [x]) (succs h x)"
    let ?d2 = "dfs h ?d1 xs"
    have eq: "dfs h vis (x # xs) = ?d2" using False by (simp add: dfs.simps(2))
    have m12: "set ?d1 \<subseteq> set ?d2" by (rule set_dfs_mono)
    have y: "y \<in> set ?d2" using "2.prems"(1) eq by simp
    show ?thesis
    proof (cases "y \<in> set ?d1")
      case False
      with "2.IH"(3)[OF \<open>x \<notin> set vis\<close> y] eq show ?thesis by simp
    next
      case True
      show ?thesis
      proof (cases "y = x")
        case True
        have "set (succs h x) \<subseteq> set ?d1" by (rule set_dfs_roots)
        with m12 True eq show ?thesis by auto
      next
        case False
        with "2.prems"(2) have "y \<notin> set (vis @ [x])" by simp
        from "2.IH"(2)[OF \<open>x \<notin> set vis\<close> True this] m12 eq show ?thesis by auto
      qed
    qed
  qed
qed

lemma Graph_walk_dfs:
  "Graph_walk h g = collected h (dfs h [] (g_nodes g @ g_edges g))"
proof -
  have "Graph_walk h g = process h (collected h []) (g_nodes g @ g_edges g)"
    by (simp add: Graph_walk_def process_append collected_def)
  then show ?thesis by (simp add: process_collected)
qed

lemma reachable_dfs: "x \<in> reachable h roots \<Longrightarrow> x \<in> set (dfs h [] roots)"
proof (induction rule: reachable.induct)
  case (root x)
  then show ?case using set_dfs_roots[of roots h "[]"] by auto
next
  case (step x y)
  then show ?case using dfs_closed[of x h "[]" roots] by auto
qed

lemma dfs_reachable_aux:
  "set vis \<subseteq> R \<Longrightarrow> set xs \<subseteq> R \<Longrightarrow> (\<And>x y. x \<in> R \<Longrightarrow> y \<in> set (succs h x) \<Longrightarrow> y \<in> R)
   \<Longrightarrow> set (dfs h vis xs) \<subseteq> R"
proof (induction h vis xs rule: dfs.induct)
  case (1 h vis)
  then show ?case by simp
next
  case (2 h vis x xs)
  show ?case
  proof (cases "x \<in> set vis")
    case True
    with 2 show ?thesis by (simp add: dfs.simps(2))
  next
    case False
    have x: "x \<in> R" using "2.prems"(2) by simp
    have "set (succs h x) \<subseteq> R" using x "2.prems"(3) by blast
    then have "set (dfs h (vis @ [x]) (succs h x)) \<subseteq> R"
      using "2.IH"(2)[OF False] "2.prems"(1,3) x by simp
    then have "set (dfs h (dfs h (vis @ [x]) (succs h x)) xs) \<subseteq> R"
      using "2.IH"(3)[OF False] "2.prems"(2,3) by simp
    with False show ?thesis by (simp add: dfs.simps(2))
  qed
qed

lemma set_dfs_reachable: "set (dfs h [] roots) = reachable h roots"
proof
  show "set (dfs h [] roots) \<subseteq> reachable h roots"
    by (rule dfs_reachable_aux) (auto intro: reachable.intros)
  show "reachable h roots \<subseteq> set (dfs h [] roots)"
    using reachable_dfs by blast
qed


lemma collect_total:
  "(\<And>x. x \<in> set xs \<Longrightarrow> \<exists>y. f x = Inr y) \<Longrightarrow> \<exists>ys. collect f xs = Inr ys"
proof (induction xs)
  case Nil
  show ?case by simp
next
  case (Cons x xs)
  from Cons.prems[of x] obtain y where "f x = Inr y" by auto
  moreover from Cons.IH Cons.prems obtain ys where "collect f xs = Inr ys" by auto
  ultimately show ?case by simp
qed

lemma node_line_total: "is_Node h r \<Longrightarrow> \<exists>l. node_line h r = Inr l"
  by (auto simp add: is_Node_def node_line_def split: option.splits obj.splits)

lemma edge_line_total:
  assumes "arcs_join_vertices h" "is_Edge h r"
  shows "\<exists>l. edge_line h r = Inr l"
proof -
  from assms(2) obtain e where e: "r < length h" "h ! r = OEdge e"
    by (auto simp add: is_Edge_def lookup_def split: if_splits obj.splits)
  with assms(1) have "is_Node h (edge_source e)" "is_Node h (edge_dest e)"
    by (auto simp add: arcs_join_vertices_def list_all_length split: obj.splits)
  with e show ?thesis
    by (auto simp add: edge_line_def lookup_def is_Node_def Let_def
        split: option.splits obj.splits if_splits)
qed

lemma Graph_lines_total:
  assumes "arcs_join_vertices h"
  shows "\<exists>ls. Graph_lines h g = Inr ls"
proof -
  let ?d = "dfs h [] (g_nodes g @ g_edges g)"
  have "\<exists>ys. collect (node_line h) (filter (is_Node h) ?d) = Inr ys"
    by (rule collect_total) (simp add: node_line_total)
  moreover have "\<exists>ys. collect (edge_line h) (filter (is_Edge h) ?d) = Inr ys"
    by (rule collect_total) (simp add: edge_line_total[OF assms])
  ultimately show ?thesis
    by (auto simp add: Graph_lines_def Graph_walk_dfs collected_def)
qed

section \<open>Facts about the lines, the examples and the registry\<close>

lemma collect_Inr_member:
  "collect f xs = Inr ys \<Longrightarrow> x \<in> set xs \<Longrightarrow> \<exists>y. f x = Inr y \<and> y \<in> set ys"
  by (induction xs arbitrary: ys) (auto split: sum.splits)

lemma Graph_lines_members:
  assumes "Graph_lines h g = Inr ls"
  shows "r \<in> set (nodes (Graph_walk h g)) \<Longrightarrow> \<exists>l. node_line h r = Inr l \<and> l \<in> set ls"
    and "r \<in> set (edges (Graph_walk h g)) \<Longrightarrow> \<exists>l. edge_line h r = Inr l \<and> l \<in> set ls"
proof -
  from assms obtain nls els hd_lines where
    n: "collect (node_line h) (nodes (Graph_walk h g)) = Inr nls" and
    e: "collect (edge_line h) (edges (Graph_walk h g)) = Inr els" and
    eq: "ls = hd_lines @ nls @ els @ [''}'']"
    by (fastforce simp add: Graph_lines_def Let_def split: sum.splits)
  have ls: "set nls \<subseteq> set ls" "set els \<subseteq> set ls"
    unfolding eq by auto
  show "r \<in> set (nodes (Graph_walk h g)) \<Longrightarrow> \<exists>l. node_line h r = Inr l \<and> l \<in> set ls"
    using collect_Inr_member[OF n] ls by blast
  show "r \<in> set (edges (Graph_walk h g)) \<Longrightarrow> \<exists>l. edge_line h r = Inr l \<and> l \<in> set ls"
    using collect_Inr_member[OF e] ls by blast
qed



lemma dangling_removed: "delitem dangling_heap dangling_graph ''B'' = Inr pruned_graph"
  by (simp add: delitem_def dangling_graph_def dangling_heap_def add_def Graph_def lookup_def
      obj_eq_def dict_of_def dict_eq_def fun_upd_twist pruned_graph_def)

lemma dangling_lookups:
  "lookup dangling_heap 1 =
     Some (ONode \<lparr>node_name = ''B'', node_edges = [2], node_items = [(''label'', PStr ''b'')]\<rparr>)"
  "lookup dangling_heap 2 = Some (OEdge \<lparr>edge_source = 0, edge_dest = 1, edge_items = []\<rparr>)"
  by (simp_all add: dangling_heap_def lookup_def)

lemma dangling_reachable:
  "2 \<in> reachable dangling_heap (g_nodes pruned_graph @ g_edges pruned_graph)"
proof (rule reachable.step)
  show "0 \<in> reachable dangling_heap (g_nodes pruned_graph @ g_edges pruned_graph)"
    by (rule reachable.root) (simp add: pruned_graph_def)
  show "2 \<in> set (succs dangling_heap 0)"
    by (simp add: succs_def dangling_heap_def lookup_def)
qed

lemma pruned_lines:
  \<open>Graph_lines dangling_heap pruned_graph =
     Inr [''digraph "g" {'', CHR 0x09 # ''"A" [label="a"];'', CHR 0x09 # ''"B" [label="b"];'',
          CHR 0x09 # ''"A" -> "B" [];'', ''}'']\<close>
  by (simp add: Graph_lines_def Graph_walk_def process.simps(2) is_Node_def node_line_def
      edge_line_def lookup_def attrs_text_def pruned_graph_def dangling_heap_def)






section \<open>The claims\<close>

text \<open>
  Claim C1.  The graph named \<^verbatim>\<open>g\<close> with a registered vertex A (\<^verbatim>\<open>label="start"\<close>), a
  registered vertex B (\<^verbatim>\<open>label="end"\<close>) and a registered top-level arc from A to B
  (\<^verbatim>\<open>style="dashed"\<close>) serialises to exactly five lines joined by newlines: the header,
  the tab-indented line of A, the tab-indented line of B, the tab-indented arc line and
  the closing brace.
\<close>

theorem C1_scenario_serialization:
  \<open>(let (h1, a) = Node [] ''A'' [(''label'', PStr ''start'')];
        (h2, b) = Node h1 ''B'' [(''label'', PStr ''end'')];
        (h3, e) = Edge h2 a b [(''style'', PStr ''dashed'')];
        g = add h3 (add h3 (add h3 (Graph ''g'' False) a) b) e
    in Graph_str h3 g) =
   Inr (join [CHR 0x0A]
         [''digraph "g" {'',
          CHR 0x09 # ''"A" [label="start"];'',
          CHR 0x09 # ''"B" [label="end"];'',
          CHR 0x09 # ''"A" -> "B" [style="dashed"];'',
          ''}''])\<close>
  by (simp add: Node_def Edge_def Graph_def add_def lookup_def Graph_str_def Graph_lines_def
      Graph_walk_def process.simps(2) is_Node_def node_line_def edge_line_def attrs_text_def)

text \<open>
  Claim C2 says that \<^verbatim>\<open>render\<close> never raises.  Without a logger and with a non-zero exit
  status the condition \<^verbatim>\<open>self.log and error or p.returncode\<close> holds, and the call
  \<^verbatim>\<open>self.log.warning\<close> on \<^verbatim>\<open>None\<close> raises \<^verbatim>\<open>AttributeError\<close>: here on the empty graph,
  for a child process that writes a diagnostic and exits with status 1.
\<close>

theorem C2_render_raises_without_log:
  "render (\<lambda>cmd input. ([], ''Error: syntax error'', 1)) [] (Graph ''g'' False) ''dot'' ''png''
     = Inl AttributeError"
  by (simp add: render_def Graph_def Graph_str_def Graph_lines_def Graph_walk_def)

text \<open>
  Claim C3 says that the mapping \<^verbatim>\<open>{x: 1, y: 2}\<close> formats to \<^verbatim>\<open>x=1, y=2\<close>.  A built-in
  dict has no \<^verbatim>\<open>iteritems\<close> in Python 3, so the formatter reaches the \<^verbatim>\<open>repr\<close>
  fallback and returns the text \<^verbatim>\<open>{'x': 1, 'y': 2}\<close>.
\<close>

theorem C3_builtin_dict_falls_back_to_repr:
  "handle_attribute_value (PDict [(''x'', PInt 1), (''y'', PInt 2)]) = ''{'x': 1, 'y': 2}''"
  by (simp add: str_repr_def repr_char_def printable_def dec.simps Let_def)

text \<open>
  Claim C4.  The traversal of \<^verbatim>\<open>Graph.__str__\<close> is the depth-first search \<open>dfs\<close> from the
  top-level vertices followed by the top-level arcs: \<^verbatim>\<open>memo\<close> is the set of visited
  references, and \<^verbatim>\<open>nodes\<close> and \<^verbatim>\<open>edges\<close> are the visited Nodes and Edges in
  first-discovery order.  No reference is visited twice, so every vertex and every arc
  gives at most one line, and the lines follow the discovery order, vertices first.
\<close>

theorem C4_serialize_once_in_discovery_order:
  \<open>distinct (dfs h [] (g_nodes g @ g_edges g)) \<and>
   Graph_walk h g = collected h (dfs h [] (g_nodes g @ g_edges g)) \<and>
   distinct (nodes (Graph_walk h g)) \<and> distinct (edges (Graph_walk h g)) \<and>
   Graph_lines h g =
     (case collect (node_line h) (filter (is_Node h) (dfs h [] (g_nodes g @ g_edges g))) of
        Inl e \<Rightarrow> Inl e
      | Inr node_lines \<Rightarrow>
          (case collect (edge_line h) (filter (is_Edge h) (dfs h [] (g_nodes g @ g_edges g))) of
             Inl e \<Rightarrow> Inl e
           | Inr edge_lines \<Rightarrow>
               Inr ([''digraph "'' @ g_name g @ ''" {'']
                    @ map attribute_line (g_attributes g)
                    @ node_lines @ edge_lines @ [''}''])))\<close>
proof -
  have d: "distinct (dfs h [] (g_nodes g @ g_edges g))"
    by (rule distinct_dfs) simp
  have w: "Graph_walk h g = collected h (dfs h [] (g_nodes g @ g_edges g))"
    by (rule Graph_walk_dfs)
  from d have "distinct (nodes (Graph_walk h g))" "distinct (edges (Graph_walk h g))"
    unfolding w by (simp_all add: collected_def)
  moreover have \<open>Graph_lines h g =
     (case collect (node_line h) (filter (is_Node h) (dfs h [] (g_nodes g @ g_edges g))) of
        Inl e \<Rightarrow> Inl e
      | Inr node_lines \<Rightarrow>
          (case collect (edge_line h) (filter (is_Edge h) (dfs h [] (g_nodes g @ g_edges g))) of
             Inl e \<Rightarrow> Inl e
           | Inr edge_lines \<Rightarrow>
               Inr ([''digraph "'' @ g_name g @ ''" {'']
                    @ map attribute_line (g_attributes g)
                    @ node_lines @ edge_lines @ [''}''])))\<close>
    unfolding Graph_lines_def w by (simp add: collected_def cong: sum.case_cong)
  ultimately show ?thesis using d w by blast
qed




text \<open>
  Claim C6 says that removing a registered name deletes that vertex from the top-level
  list.  \<^verbatim>\<open>self.nodes.remove(node)\<close> drops the first element that is equal to the
  vertex, and two Nodes with the same attributes are equal: after \<^verbatim>\<open>g['A']\<close> and
  \<^verbatim>\<open>g['B']\<close>, \<^verbatim>\<open>del g['B']\<close> unregisters B but drops A from the list.
\<close>

theorem C6_remove_drops_an_equal_vertex:
  "(let (h1, g1, a) = getitem [] (Graph ''g'' False) ''A'';
        (h2, g2, b) = getitem h1 g1 ''B''
    in case delitem h2 g2 ''B'' of
         Inl x \<Rightarrow> False
       | Inr g3 \<Rightarrow>
           a \<noteq> b \<and> g_nodes g2 = [a, b] \<and> g_nodes g3 = [b] \<and>
           g_node_map g3 ''A'' = Some a \<and> g_node_map g3 ''B'' = None)"
  by (simp add: getitem_def Graph_def Node_def delitem_def obj_eq_def lookup_def dict_of_def
      dict_eq_def)

text \<open>
  Claim C7 as stated fails: when a vertex has been registered twice, lookup-or-create
  returns it and it stands twice in the top-level list.
\<close>

theorem C7_getitem_twice_counterexample:
  "(let h = [ONode \<lparr>node_name = ''a'', node_edges = [], node_items = []\<rparr>];
        g = add h (add h (Graph ''g'' False) 0) 0;
        (h1, g1, r1) = getitem h g ''a'';
        (h2, g2, r2) = getitem h1 g1 ''a''
    in r1 = r2 \<and> count_list (g_nodes g2) r2 = 2 \<and> count_list (g_nodes g2) r2 \<noteq> 1)"
  by (simp add: add_def Graph_def lookup_def getitem_def)

text \<open>
  Claim C7, amended.  Lookup-or-create returns the registered vertex for a registered name
  and changes nothing; for an unregistered name it allocates a new vertex with that name,
  no arcs and no attributes, appends it to the top-level list, registers it and returns
  it.  A second call with the same name returns the same vertex and changes nothing.  A
  vertex created by the first call stands exactly once in the top-level list.
\<close>

theorem C7_getitem_idempotent:
  assumes "list_all (\<lambda>r. r < length h) (g_nodes g)"
  shows "case getitem h g key of
           (h1, g1, r1) \<Rightarrow>
             getitem h1 g1 key = (h1, g1, r1) \<and>
             g_node_map g1 key = Some r1 \<and>
             (case g_node_map g key of
                Some r \<Rightarrow> r1 = r \<and> h1 = h \<and> g1 = g
              | None \<Rightarrow>
                  r1 = length h \<and>
                  h1 = h @ [ONode \<lparr>node_name = key, node_edges = [], node_items = []\<rparr>] \<and>
                  g1 = g\<lparr>g_node_map := (g_node_map g)(key \<mapsto> r1),
                         g_nodes := g_nodes g @ [r1]\<rparr> \<and>
                  count_list (g_nodes g1) r1 = 1)"
proof (cases "g_node_map g key")
  case (Some r)
  then show ?thesis by (simp add: getitem_def)
next
  case None
  from assms have "length h \<notin> set (g_nodes g)"
    by (auto simp add: list_all_iff)
  then have "count_list (g_nodes g) (length h) = 0"
    by (simp add: count_list_0_iff)
  with None show ?thesis by (simp add: getitem_def Node_def)
qed

theorem C7_getitem_idempotent_witness:
  "list_all (\<lambda>r. r < length [ONode \<lparr>node_name = ''a'', node_edges = [], node_items = []\<rparr>])
     (g_nodes (add [ONode \<lparr>node_name = ''a'', node_edges = [], node_items = []\<rparr>]
                 (Graph ''g'' False) 0)) \<and>
   (case getitem [ONode \<lparr>node_name = ''a'', node_edges = [], node_items = []\<rparr>]
           (add [ONode \<lparr>node_name = ''a'', node_edges = [], node_items = []\<rparr>]
              (Graph ''g'' False) 0) ''b'' of
      (h1, g1, r1) \<Rightarrow>
         getitem h1 g1 ''b'' = (h1, g1, r1) \<and> r1 = 1 \<and> g_nodes g1 = [0, 1] \<and>
         count_list (g_nodes g1) r1 = 1)"
proof -
  let ?h = "[ONode \<lparr>node_name = ''a'', node_edges = [], node_items = []\<rparr>]"
  let ?g = "add ?h (Graph ''g'' False) 0"
  have a: "list_all (\<lambda>r. r < length ?h) (g_nodes ?g)"
    by (simp add: add_def Graph_def lookup_def)
  have n: "g_node_map ?g ''b'' = None" "g_nodes ?g = [0]"
    by (simp_all add: add_def Graph_def lookup_def)
  from C7_getitem_idempotent[OF a, of "''b''"] a n show ?thesis
    by (auto split: prod.splits)
qed

text \<open>
  Claim C8.  For vertices A and B, \<^verbatim>\<open>A > B\<close> allocates exactly one new Arc with source A,
  destination B and no attributes, appends it once to the incident-arc list of A and once
  to the incident-arc list of B, leaves every other object and every other field as it
  was, and returns the new Arc.  When A and B are the same vertex the two appends reach
  the same list.
\<close>

theorem C8_gt_appends_one_arc:
  assumes "is_Node h a" and "is_Node h b"
  shows "case gt h a b of
           Inl x \<Rightarrow> False
         | Inr (h', e) \<Rightarrow>
             e = length h \<and>
             lookup h' e = Some (OEdge \<lparr>edge_source = a, edge_dest = b, edge_items = []\<rparr>) \<and>
             length h' = Suc (length h) \<and>
             (\<forall>r. r < length h \<longrightarrow>
                lookup h' r =
                  (case lookup h r of
                     Some (ONode n) \<Rightarrow>
                       Some (ONode (n\<lparr>node_edges := node_edges n
                                        @ (if r = a then [e] else [])
                                        @ (if r = b then [e] else [])\<rparr>))
                   | x \<Rightarrow> x))"
proof -
  from assms obtain na nb where a: "a < length h" "h ! a = ONode na"
    and b: "b < length h" "h ! b = ONode nb"
    by (auto simp add: is_Node_def lookup_def split: if_splits obj.splits)
  show ?thesis
    using a b
    by (auto simp add: gt_def Edge_def edges_append_def lookup_def nth_append
        nth_list_update split: obj.splits)
qed

theorem C8_gt_appends_one_arc_witness:
  "(let (h1, a) = Node [] ''A'' []; (h2, b) = Node h1 ''B'' [] in
    is_Node h2 a \<and> is_Node h2 b \<and>
    (case gt h2 a b of
       Inl x \<Rightarrow> False
     | Inr (h', e) \<Rightarrow>
         e = 2 \<and>
         lookup h' e = Some (OEdge \<lparr>edge_source = a, edge_dest = b, edge_items = []\<rparr>) \<and>
         lookup h' a = Some (ONode \<lparr>node_name = ''A'', node_edges = [e], node_items = []\<rparr>) \<and>
         lookup h' b = Some (ONode \<lparr>node_name = ''B'', node_edges = [e], node_items = []\<rparr>)))"
proof -
  let ?h = "[ONode \<lparr>node_name = ''A'', node_edges = [], node_items = []\<rparr>,
             ONode \<lparr>node_name = ''B'', node_edges = [], node_items = []\<rparr>]"
  have 1: "is_Node ?h 0" and 2: "is_Node ?h 1" by (simp_all add: is_Node_def lookup_def)
  from C8_gt_appends_one_arc[OF 1 2] 1 2 show ?thesis
    by (auto simp add: Node_def lookup_def split: sum.splits)
qed



text \<open>
  Claim C10.  After a vertex has been removed from the graph, if an arc that can still be
  reached from the top-level lists has the removed vertex as its source or destination,
  the traversal discovers the vertex again and every serialisation contains its line; and
  the serialisation succeeds when all arcs join vertices.
\<close>

theorem C10_removed_vertex_still_emitted:
  assumes "delitem h g key = Inr g'"
    and "g_node_map g key = Some v"
    and "lookup h v = Some (ONode n)"
    and "e \<in> reachable h (g_nodes g' @ g_edges g')"
    and "lookup h e = Some (OEdge a)"
    and "edge_source a = v \<or> edge_dest a = v"
  shows \<open>v \<in> set (nodes (Graph_walk h g')) \<and>
         (\<forall>ls. Graph_lines h g' = Inr ls \<longrightarrow>
            CHR 0x09 # ''"'' @ node_name n @ ''" ['' @ attrs_text (node_items n) @ ''];''
              \<in> set ls) \<and>
         (arcs_join_vertices h \<longrightarrow> (\<exists>ls. Graph_lines h g' = Inr ls))\<close>
proof -
  have node: "is_Node h v" using assms(3) by (simp add: is_Node_def)
  then have "v \<in> set (succs h e)"
    using assms(5,6) by (auto simp add: succs_def)
  with assms(4) have "v \<in> reachable h (g_nodes g' @ g_edges g')"
    by (rule reachable.step)
  then have "v \<in> set (dfs h [] (g_nodes g' @ g_edges g'))"
    by (rule reachable_dfs)
  with node have v: "v \<in> set (nodes (Graph_walk h g'))"
    by (simp add: Graph_walk_dfs collected_def)
  have \<open>CHR 0x09 # ''"'' @ node_name n @ ''" ['' @ attrs_text (node_items n) @ ''];'' \<in> set ls\<close>
    if "Graph_lines h g' = Inr ls" for ls
    using Graph_lines_members(1)[OF that v] assms(3) by (auto simp add: node_line_def)
  with v Graph_lines_total show ?thesis by blast
qed

theorem C10_removed_vertex_still_emitted_witness:
  \<open>delitem dangling_heap dangling_graph ''B'' = Inr pruned_graph \<and>
   g_node_map dangling_graph ''B'' = Some 1 \<and>
   1 \<notin> set (g_nodes pruned_graph) \<and>
   2 \<in> reachable dangling_heap (g_nodes pruned_graph @ g_edges pruned_graph) \<and>
   lookup dangling_heap 2 = Some (OEdge \<lparr>edge_source = 0, edge_dest = 1, edge_items = []\<rparr>) \<and>
   1 \<in> set (nodes (Graph_walk dangling_heap pruned_graph)) \<and>
   Graph_lines dangling_heap pruned_graph =
     Inr [''digraph "g" {'', CHR 0x09 # ''"A" [label="a"];'', CHR 0x09 # ''"B" [label="b"];'',
          CHR 0x09 # ''"A" -> "B" [];'', ''}''] \<and>
   CHR 0x09 # ''"B" [label="b"];''
     \<in> set [''digraph "g" {'', CHR 0x09 # ''"A" [label="a"];'', CHR 0x09 # ''"B" [label="b"];'',
          CHR 0x09 # ''"A" -> "B" [];'', ''}'']\<close>
proof -
  have m: "g_node_map dangling_graph ''B'' = Some 1"
    by (simp add: dangling_graph_def dangling_heap_def add_def Graph_def lookup_def)
  have s: "edge_source \<lparr>edge_source = 0, edge_dest = 1, edge_items = []\<rparr> = 1
           \<or> edge_dest \<lparr>edge_source = 0, edge_dest = 1, edge_items = []\<rparr> = (1::nat)"
    by simp
  note c = C10_removed_vertex_still_emitted[OF dangling_removed m dangling_lookups(1)
      dangling_reachable dangling_lookups(2) s]
  from c have 1: "1 \<in> set (nodes (Graph_walk dangling_heap pruned_graph))" by blast
  from c pruned_lines have 2: \<open>CHR 0x09 # ''"B" [label="b"];''
     \<in> set [''digraph "g" {'', CHR 0x09 # ''"A" [label="a"];'', CHR 0x09 # ''"B" [label="b"];'',
          CHR 0x09 # ''"A" -> "B" [];'', ''}'']\<close>
    by (simp add: attrs_text_def)
  have 3: "1 \<notin> set (g_nodes pruned_graph)" by (simp add: pruned_graph_def)
  from dangling_removed m 3 dangling_reachable dangling_lookups(2) 1 pruned_lines 2
  show ?thesis by blast
qed

end
